theory Spec2Isabelle
  imports Main "HOL-Library.Multiset"
begin

section \<open>Values of the request payload\<close>

text \<open>
  The handlers of \<^verbatim>\<open>server/server.py\<close> work on the Python objects that
  \<^verbatim>\<open>request.get_json()\<close> builds from the request body: \<^verbatim>\<open>None\<close>, booleans,
  unbounded integers, floats, strings, lists and dictionaries with string keys.

  A float is represented by what CPython's shortest-repr conversion yields for it: the sign,
  the buffer of significant decimal digits and the position of the decimal point
  (the value is \<open>0.d\<^sub>1d\<^sub>2\<dots>d\<^sub>n \<times> 10\<^sup>p\<close>). The binary64 rounding behind that conversion is not
  part of the model. A string is a list of code points below 256. A dictionary is the list of
  its items in insertion order; lookup takes the first item with the key.
\<close>

datatype pyfloat = Finite bool string int | Infinite bool | NaN

datatype json =
    JNull
  | JBool bool
  | JInt int
  | JFloat pyfloat
  | JStr string
  | JArr "json list"
  | JObj "(string \<times> json) list"

datatype error = AttributeError | OverflowError | InterfaceError

text \<open>\<^verbatim>\<open>d.get(k, default)\<close>: defined on dictionaries only; on any other object the
  attribute lookup raises \<^verbatim>\<open>AttributeError\<close>.\<close>

definition dict_get :: "json \<Rightarrow> string \<Rightarrow> json \<Rightarrow> error + json" where
  "dict_get d k dflt =
     (case d of
        JObj kvs \<Rightarrow> Inr (case map_of kvs k of None \<Rightarrow> dflt | Some v \<Rightarrow> v)
      | _ \<Rightarrow> Inl AttributeError)"

section \<open>\<^verbatim>\<open>json.dumps\<close>\<close>

text \<open>
  \<^verbatim>\<open>json.dumps\<close> with its default arguments, as line 36 calls it: the separators are
  \<^verbatim>\<open>", "\<close> and \<^verbatim>\<open>": "\<close>, an integer is written in decimal, a float by its repr.
  The interpreter's limit on the length of an integer's decimal text is not modelled.

  \<open>digit_char\<close> is used below 10 for decimal and below 16 for hexadecimal digits only.
\<close>

definition digit_char :: "nat \<Rightarrow> char" where
  "digit_char d = ''0123456789abcdef'' ! d"

function show_nat :: "nat \<Rightarrow> string" where
  "show_nat n = (if n < 10 then [digit_char n] else show_nat (n div 10) @ [digit_char (n mod 10)])"
  by pat_completeness auto
termination
  by (relation "measure id") auto

definition show_int :: "int \<Rightarrow> string" where
  "show_int i = (if i < 0 then CHR ''-'' # show_nat (nat (- i)) else show_nat (nat i))"

text \<open>The exponent of a float in scientific notation, C's \<^verbatim>\<open>%+.02d\<close>.\<close>

definition show_exp :: "int \<Rightarrow> string" where
  "show_exp e =
     (if e < 0 then CHR ''-'' else CHR ''+'') #
     (if \<bar>e\<bar> < 10 then ''0'' else '''') @ show_nat (nat \<bar>e\<bar>)"

text \<open>\<^verbatim>\<open>float.__repr__\<close>: scientific notation when the decimal point lies more than
  16 places right of the first digit or 4 or more places left of it, positional notation
  with at least one digit after the point otherwise.\<close>

definition float_repr :: "pyfloat \<Rightarrow> string" where
  "float_repr f =
     (case f of
        Finite neg digits decpt \<Rightarrow>
          (if neg then ''-'' else '''') @
          (if decpt \<le> - 4 \<or> decpt > 16 then
             take 1 digits @ (if length digits > 1 then CHR ''.'' # drop 1 digits else '''') @
             CHR ''e'' # show_exp (decpt - 1)
           else if decpt \<le> 0 then
             ''0.'' @ replicate (nat (- decpt)) CHR ''0'' @ digits
           else if decpt < int (length digits) then
             take (nat decpt) digits @ CHR ''.'' # drop (nat decpt) digits
           else
             digits @ replicate (nat decpt - length digits) CHR ''0'' @ ''.0'')
      | Infinite neg \<Rightarrow> (if neg then ''-inf'' else ''inf'')
      | NaN \<Rightarrow> ''nan'')"

text \<open>The encoder's \<^verbatim>\<open>floatstr\<close> (\<^verbatim>\<open>allow_nan\<close> is left at its default).\<close>

definition floatstr :: "pyfloat \<Rightarrow> string" where
  "floatstr f =
     (case f of
        NaN \<Rightarrow> ''NaN''
      | Infinite neg \<Rightarrow> (if neg then ''-Infinity'' else ''Infinity'')
      | Finite _ _ _ \<Rightarrow> float_repr f)"

text \<open>String literals with \<^verbatim>\<open>ensure_ascii\<close> at its default: the quote, the backslash and
  every code point outside \<^verbatim>\<open>' '..'~'\<close> are escaped.\<close>

definition escape_char :: "char \<Rightarrow> string" where
  "escape_char c =
     (if c = CHR 0x22 then [CHR 0x5C, CHR 0x22]
      else if c = CHR 0x5C then [CHR 0x5C, CHR 0x5C]
      else if c = CHR 0x0A then [CHR 0x5C, CHR ''n'']
      else if c = CHR 0x0D then [CHR 0x5C, CHR ''r'']
      else if c = CHR 0x09 then [CHR 0x5C, CHR ''t'']
      else if c = CHR 0x08 then [CHR 0x5C, CHR ''b'']
      else if c = CHR 0x0C then [CHR 0x5C, CHR ''f'']
      else if (of_char c :: nat) < 32 \<or> (of_char c :: nat) > 126 then
        [CHR 0x5C, CHR ''u'', CHR ''0'', CHR ''0'',
         digit_char (of_char c div 16), digit_char (of_char c mod 16)]
      else [c])"

definition encode_basestring_ascii :: "string \<Rightarrow> string" where
  "encode_basestring_ascii s = CHR 0x22 # concat (map escape_char s) @ [CHR 0x22]"

fun json_dumps :: "json \<Rightarrow> string"
  and dumps_elems :: "json list \<Rightarrow> string"
  and dumps_items :: "(string \<times> json) list \<Rightarrow> string" where
  "json_dumps JNull = ''null''"
| "json_dumps (JBool b) = (if b then ''true'' else ''false'')"
| "json_dumps (JInt i) = show_int i"
| "json_dumps (JFloat f) = floatstr f"
| "json_dumps (JStr s) = encode_basestring_ascii s"
| "json_dumps (JArr xs) = CHR ''['' # dumps_elems xs @ '']''"
| "json_dumps (JObj kvs) = CHR ''{'' # dumps_items kvs @ ''}''"
| "dumps_elems [] = []"
| "dumps_elems [x] = json_dumps x"
| "dumps_elems (x # y # ys) = json_dumps x @ '', '' @ dumps_elems (y # ys)"
| "dumps_items [] = []"
| "dumps_items [(k, v)] = encode_basestring_ascii k @ '': '' @ json_dumps v"
| "dumps_items ((k, v) # kv # kvs) =
     encode_basestring_ascii k @ '': '' @ json_dumps v @ '', '' @ dumps_items (kv # kvs)"

section \<open>\<^verbatim>\<open>json.loads\<close>\<close>

text \<open>
  The service never decodes the coordinates text; a client does, with the decoder that pairs
  with \<^verbatim>\<open>json.dumps\<close>. The model follows the standard decoder on the texts a coordinates
  structure is rendered to: whitespace, arrays, numbers and the literals. A text holding a
  string or an object is outside this fragment, and the decoder gives \<open>None\<close> on it as it
  does on a malformed text.

  A number token is an optional minus sign, an integer part without leading zero, an optional
  fraction and an optional exponent. A token without fraction and exponent is an integer; any
  other is passed to \<^verbatim>\<open>float()\<close>, which here yields the float whose digit buffer is the
  token's digits without leading and trailing zeros. The rounding of a longer token to the
  nearest binary64 value, and overflow to infinity, are not modelled.

  The scanner recurses on nested arrays; the recursion is bounded by a counter that
  \<open>json_loads\<close> starts at the length of the text.
\<close>

definition is_ws :: "char \<Rightarrow> bool" where
  "is_ws c \<longleftrightarrow> c = CHR '' '' \<or> c = CHR 0x09 \<or> c = CHR 0x0A \<or> c = CHR 0x0D"

definition skip_ws :: "string \<Rightarrow> string" where
  "skip_ws s = dropWhile is_ws s"

definition is_digit :: "char \<Rightarrow> bool" where
  "is_digit c \<longleftrightarrow> c \<in> set ''0123456789''"

definition digit_val :: "char \<Rightarrow> nat" where
  "digit_val c = of_char c - 48"

definition nat_of_digits :: "string \<Rightarrow> nat" where
  "nat_of_digits ds = foldl (\<lambda>a c. 10 * a + digit_val c) 0 ds"

definition scan_int_part :: "string \<Rightarrow> (string \<times> string) option" where
  "scan_int_part s =
     (case s of
        [] \<Rightarrow> None
      | c # cs \<Rightarrow>
          if c = CHR ''0'' then Some ([c], cs)
          else if is_digit c then Some (c # takeWhile is_digit cs, dropWhile is_digit cs)
          else None)"

definition scan_frac :: "string \<Rightarrow> string \<times> string" where
  "scan_frac s =
     (case s of
        c # d # cs \<Rightarrow>
          if c = CHR ''.'' \<and> is_digit d
          then (d # takeWhile is_digit cs, dropWhile is_digit cs)
          else ([], s)
      | _ \<Rightarrow> ([], s))"

definition scan_exp :: "string \<Rightarrow> int option \<times> string" where
  "scan_exp s =
     (case s of
        [] \<Rightarrow> (None, s)
      | c # cs \<Rightarrow>
          if c = CHR ''e'' \<or> c = CHR ''E'' then
            (let (neg, ds) =
                   (case cs of
                      [] \<Rightarrow> (False, cs)
                    | d # r \<Rightarrow>
                        if d = CHR ''-'' then (True, r)
                        else if d = CHR ''+'' then (False, r)
                        else (False, cs))
             in if takeWhile is_digit ds = [] then (None, s)
                else (Some ((if neg then - 1 else 1) * int (nat_of_digits (takeWhile is_digit ds))),
                      dropWhile is_digit ds))
          else (None, s))"

definition float_of_digits :: "bool \<Rightarrow> string \<Rightarrow> string \<Rightarrow> int \<Rightarrow> pyfloat" where
  "float_of_digits neg ip fp e =
     (let ds = dropWhile (\<lambda>c. c = CHR ''0'') (ip @ fp);
          lead = length (ip @ fp) - length ds;
          ds' = rev (dropWhile (\<lambda>c. c = CHR ''0'') (rev ds))
      in if ds' = [] then Finite neg ''0'' 1
         else Finite neg ds' (int (length ip) + e - int lead))"

text \<open>The number after its sign: integer part, optional fraction, optional exponent. Without
  fraction and exponent the token is an integer, otherwise a float.\<close>

definition scan_unsigned :: "bool \<Rightarrow> string \<Rightarrow> (json \<times> string) option" where
  "scan_unsigned neg s1 =
     (case scan_int_part s1 of
        None \<Rightarrow> None
      | Some (ip, s2) \<Rightarrow>
          (let (fp, s3) = scan_frac s2;
               (ex, s4) = scan_exp s3
           in if fp = [] \<and> ex = None
              then Some (JInt ((if neg then - 1 else 1) * int (nat_of_digits ip)), s4)
              else Some (JFloat (float_of_digits neg ip fp
                                   (case ex of None \<Rightarrow> 0 | Some e \<Rightarrow> e)), s4)))"

definition match_number :: "string \<Rightarrow> (json \<times> string) option" where
  "match_number s =
     (case s of
        [] \<Rightarrow> None
      | c # cs \<Rightarrow> if c = CHR ''-'' then scan_unsigned True cs else scan_unsigned False s)"

fun scan_once :: "nat \<Rightarrow> string \<Rightarrow> (json \<times> string) option"
  and scan_elems :: "nat \<Rightarrow> string \<Rightarrow> (json list \<times> string) option" where
  "scan_once 0 s = None"
| "scan_once (Suc n) s =
     (case s of
        [] \<Rightarrow> None
      | c # cs \<Rightarrow>
          if c = CHR 0x22 \<or> c = CHR ''{'' then None
          else if c = CHR ''['' then
            (case skip_ws cs of
               [] \<Rightarrow> None
             | d # r \<Rightarrow>
                 if d = CHR '']'' then Some (JArr [], r)
                 else (case scan_elems n (d # r) of
                         None \<Rightarrow> None
                       | Some (vs, r') \<Rightarrow> Some (JArr vs, r')))
          else if c = CHR ''n'' \<and> take 4 s = ''null'' then Some (JNull, drop 4 s)
          else if c = CHR ''t'' \<and> take 4 s = ''true'' then Some (JBool True, drop 4 s)
          else if c = CHR ''f'' \<and> take 5 s = ''false'' then Some (JBool False, drop 5 s)
          else
            (case match_number s of
               Some r \<Rightarrow> Some r
             | None \<Rightarrow>
                 if c = CHR ''N'' \<and> take 3 s = ''NaN'' then Some (JFloat NaN, drop 3 s)
                 else if c = CHR ''I'' \<and> take 8 s = ''Infinity''
                 then Some (JFloat (Infinite False), drop 8 s)
                 else if c = CHR ''-'' \<and> take 9 s = ''-Infinity''
                 then Some (JFloat (Infinite True), drop 9 s)
                 else None))"
| "scan_elems 0 s = None"
| "scan_elems (Suc n) s =
     (case scan_once n s of
        None \<Rightarrow> None
      | Some (v, r) \<Rightarrow>
          (case skip_ws r of
             [] \<Rightarrow> None
           | d # r' \<Rightarrow>
               if d = CHR '']'' then Some ([v], r')
               else if d = CHR '','' then
                 (case scan_elems n (skip_ws r') of
                    None \<Rightarrow> None
                  | Some (vs, r'') \<Rightarrow> Some (v # vs, r''))
               else None))"

definition json_loads :: "string \<Rightarrow> json option" where
  "json_loads s =
     (case scan_once (length s) (skip_ws s) of
        None \<Rightarrow> None
      | Some (v, r) \<Rightarrow> if skip_ws r = [] then Some v else None)"

text \<open>The coordinates structures of the data model: integers, floats other than NaN whose
  digit buffer is well formed (decimal digits, no leading or trailing zero, zero being the
  buffer \<^verbatim>\<open>0\<close> with the point after it), and arrays of such structures, nested to any
  depth.\<close>

fun float_ok :: "pyfloat \<Rightarrow> bool" where
  "float_ok (Finite neg ds p) \<longleftrightarrow>
     ds \<noteq> [] \<and> list_all is_digit ds \<and>
     (if ds = ''0'' then p = 1 else hd ds \<noteq> CHR ''0'' \<and> last ds \<noteq> CHR ''0'')"
| "float_ok (Infinite neg) \<longleftrightarrow> True"
| "float_ok NaN \<longleftrightarrow> False"

fun is_coordinates :: "json \<Rightarrow> bool" where
  "is_coordinates (JInt i) \<longleftrightarrow> True"
| "is_coordinates (JFloat f) \<longleftrightarrow> float_ok f"
| "is_coordinates (JArr xs) \<longleftrightarrow> list_all is_coordinates xs"
| "is_coordinates _ \<longleftrightarrow> False"

text \<open>What follows a number in a rendered array, and how a rendered value begins.\<close>

definition ends_number :: "string \<Rightarrow> bool" where
  "ends_number r \<longleftrightarrow>
     (case r of [] \<Rightarrow> True | c # _ \<Rightarrow> c = CHR '','' \<or> c = CHR '']'')"

definition starts_number :: "string \<Rightarrow> bool" where
  "starts_number s \<longleftrightarrow>
     (case s of [] \<Rightarrow> False | c # _ \<Rightarrow> c = CHR ''-'' \<or> c = CHR ''I'' \<or> is_digit c)"

definition starts_value :: "string \<Rightarrow> bool" where
  "starts_value s \<longleftrightarrow> starts_number s \<or> take 1 s = ''[''"

section \<open>The store\<close>

text \<open>The values a column can hold.\<close>

datatype sqlval = SqlNull | SqlInteger int | SqlReal pyfloat | SqlText string

text \<open>
  Modelled from the spec: the table \<^verbatim>\<open>fences\<close> is created by \<^verbatim>\<open>schema.sql\<close>, which
  is not part of the sources. Following the spec it has the five columns
  \<^verbatim>\<open>fence_id, name, notes, created_at, coordinates\<close>, no key or uniqueness constraint and
  no required column, and a column keeps the value it is given.

  The store is the list of the table's rows in the order in which they were inserted. The
  order in which a \<^verbatim>\<open>SELECT\<close> without \<^verbatim>\<open>ORDER BY\<close> returns them is not part of the
  store: it is the engine's, and the handlers below say how they take it.
  The table is taken to exist: the call of \<^verbatim>\<open>init_db()\<close> is commented out in the source,
  and a missing table or file is outside the model.
\<close>

record fence =
  fence_id_col :: sqlval
  name_col :: sqlval
  notes_col :: sqlval
  created_at_col :: sqlval
  coordinates_col :: sqlval

type_synonym store = "fence list"

text \<open>How the \<^verbatim>\<open>sqlite3\<close> module binds a Python object to a statement parameter:
  \<^verbatim>\<open>None\<close>, integers that fit 64 bits (booleans are integers), floats and strings are
  supported; a larger integer raises \<^verbatim>\<open>OverflowError\<close>, a list or a dictionary raises the
  module's binding error (\<^verbatim>\<open>InterfaceError\<close>, \<^verbatim>\<open>ProgrammingError\<close> in later versions).
  A NaN is bound as \<^verbatim>\<open>NULL\<close>.\<close>

definition bind_param :: "json \<Rightarrow> error + sqlval" where
  "bind_param v =
     (case v of
        JNull \<Rightarrow> Inr SqlNull
      | JBool b \<Rightarrow> Inr (SqlInteger (if b then 1 else 0))
      | JInt i \<Rightarrow>
          (if - (2 ^ 63) \<le> i \<and> i < 2 ^ 63 then Inr (SqlInteger i) else Inl OverflowError)
      | JFloat f \<Rightarrow> Inr (if f = NaN then SqlNull else SqlReal f)
      | JStr s \<Rightarrow> Inr (SqlText s)
      | JArr _ \<Rightarrow> Inl InterfaceError
      | JObj _ \<Rightarrow> Inl InterfaceError)"

text \<open>\<^verbatim>\<open>conn.execute('INSERT INTO fences (...) VALUES (?, ?, ?, ?, ?)', (...))\<close>
  followed by \<^verbatim>\<open>conn.commit()\<close>: the five parameters are bound in order, and the row is
  appended only when all of them are.\<close>

definition execute_insert ::
  "store \<Rightarrow> json \<times> json \<times> json \<times> json \<times> json \<Rightarrow> error + store" where
  "execute_insert s params =
     (case params of (p1, p2, p3, p4, p5) \<Rightarrow>
        (case bind_param p1 of Inl e \<Rightarrow> Inl e | Inr c1 \<Rightarrow>
         case bind_param p2 of Inl e \<Rightarrow> Inl e | Inr c2 \<Rightarrow>
         case bind_param p3 of Inl e \<Rightarrow> Inl e | Inr c3 \<Rightarrow>
         case bind_param p4 of Inl e \<Rightarrow> Inl e | Inr c4 \<Rightarrow>
         case bind_param p5 of Inl e \<Rightarrow> Inl e | Inr c5 \<Rightarrow>
           Inr (s @ [\<lparr>fence_id_col = c1, name_col = c2, notes_col = c3,
                      created_at_col = c4, coordinates_col = c5\<rparr>])))"

text \<open>The Python object \<^verbatim>\<open>sqlite3\<close> returns for a stored value, and \<^verbatim>\<open>dict(row)\<close>
  for a \<^verbatim>\<open>sqlite3.Row\<close>: the columns in table order.\<close>

definition py_of_sql :: "sqlval \<Rightarrow> json" where
  "py_of_sql c =
     (case c of
        SqlNull \<Rightarrow> JNull
      | SqlInteger i \<Rightarrow> JInt i
      | SqlReal f \<Rightarrow> JFloat f
      | SqlText t \<Rightarrow> JStr t)"

definition dict_of_row :: "fence \<Rightarrow> json" where
  "dict_of_row r =
     JObj [(''fence_id'', py_of_sql (fence_id_col r)),
           (''name'', py_of_sql (name_col r)),
           (''notes'', py_of_sql (notes_col r)),
           (''created_at'', py_of_sql (created_at_col r)),
           (''coordinates'', py_of_sql (coordinates_col r))]"

section \<open>The handlers\<close>

text \<open>A handler takes the store and returns the store it leaves behind together with either
  the exception that escaped it or the pair of status code and JSON body it returned.\<close>

type_synonym response = "nat \<times> json"

text \<open>\<^verbatim>\<open>create_geofence\<close>, lines 27 to 48. \<^verbatim>\<open>data\<close> is what
  \<^verbatim>\<open>request.get_json()\<close> returned.\<close>

definition create_geofence :: "json \<Rightarrow> store \<Rightarrow> (error + response) \<times> store" where
  "create_geofence data s =
     (case dict_get data ''fence_id'' JNull of Inl e \<Rightarrow> (Inl e, s) | Inr fence_id \<Rightarrow>
      case dict_get data ''properties'' (JObj []) of Inl e \<Rightarrow> (Inl e, s) | Inr props \<Rightarrow>
      case dict_get props ''name'' JNull of Inl e \<Rightarrow> (Inl e, s) | Inr name \<Rightarrow>
      case dict_get data ''properties'' (JObj []) of Inl e \<Rightarrow> (Inl e, s) | Inr props' \<Rightarrow>
      case dict_get props' ''notes'' JNull of Inl e \<Rightarrow> (Inl e, s) | Inr notes \<Rightarrow>
      case dict_get data ''created_at'' JNull of Inl e \<Rightarrow> (Inl e, s) | Inr created_at \<Rightarrow>
      case dict_get data ''shape'' (JObj []) of Inl e \<Rightarrow> (Inl e, s) | Inr shape \<Rightarrow>
      case dict_get shape ''coordinates'' JNull of Inl e \<Rightarrow> (Inl e, s) | Inr coords \<Rightarrow>
      let coordinates_str = json_dumps coords in
      case execute_insert s (fence_id, name, notes, created_at, JStr coordinates_str) of
        Inl e \<Rightarrow> (Inl e, s)
      | Inr s' \<Rightarrow>
          (Inr (201, JObj [(''status'', JStr ''success''),
                           (''message'', JStr ''Geofence created and stored'')]), s'))"

text \<open>\<^verbatim>\<open>get_geofences\<close>, lines 51 to 59: only a \<^verbatim>\<open>SELECT\<close> is executed, and
  \<^verbatim>\<open>jsonify\<close> answers with status 200.\<close>

definition get_geofences :: "store \<Rightarrow> (error + response) \<times> store" where
  "get_geofences s =
     (let fences_rows = s;
          fences_list = map dict_of_row fences_rows
      in (Inr (200, JArr fences_list), s))"


text \<open>Flask answers a request whose handler raised with status 500.\<close>

definition http_status :: "error + response \<Rightarrow> nat" where
  "http_status r = (case r of Inl _ \<Rightarrow> 500 | Inr (code, _) \<Rightarrow> code)"

section \<open>Requests and payloads\<close>

text \<open>The two routes of the service, and a sequence of requests served one after the other.\<close>

datatype request = Create json | List

fun handle :: "request \<Rightarrow> store \<Rightarrow> (error + response) \<times> store" where
  "handle (Create data) s = create_geofence data s"
| "handle List s = get_geofences s"

fun serve :: "request list \<Rightarrow> store \<Rightarrow> store" where
  "serve [] s = s"
| "serve (r # rs) s = serve rs (snd (handle r s))"

text \<open>Reading a payload: the value under a key, \<open>JNull\<close> when the key or the dictionary
  is absent.\<close>

definition lookup :: "json \<Rightarrow> string \<Rightarrow> json" where
  "lookup d k =
     (case d of
        JObj kvs \<Rightarrow> (case map_of kvs k of None \<Rightarrow> JNull | Some v \<Rightarrow> v)
      | _ \<Rightarrow> JNull)"

definition has_key :: "json \<Rightarrow> string \<Rightarrow> bool" where
  "has_key d k = (case d of JObj kvs \<Rightarrow> map_of kvs k \<noteq> None | _ \<Rightarrow> False)"

fun is_obj :: "json \<Rightarrow> bool" where
  "is_obj (JObj _) = True"
| "is_obj _ = False"

fun is_opt_str :: "json \<Rightarrow> bool" where
  "is_opt_str JNull = True"
| "is_opt_str (JStr _) = True"
| "is_opt_str _ = False"

definition payload_fence_id :: "json \<Rightarrow> json" where
  "payload_fence_id p = lookup p ''fence_id''"

definition payload_name :: "json \<Rightarrow> json" where
  "payload_name p = lookup (lookup p ''properties'') ''name''"

definition payload_notes :: "json \<Rightarrow> json" where
  "payload_notes p = lookup (lookup p ''properties'') ''notes''"

definition payload_created_at :: "json \<Rightarrow> json" where
  "payload_created_at p = lookup p ''created_at''"

definition payload_coordinates :: "json \<Rightarrow> json" where
  "payload_coordinates p = lookup (lookup p ''shape'') ''coordinates''"

text \<open>A valid create payload, after the spec's data model: an object whose \<^verbatim>\<open>fence_id\<close>,
  \<^verbatim>\<open>properties.name\<close>, \<^verbatim>\<open>properties.notes\<close> and \<^verbatim>\<open>created_at\<close> are strings where
  present, whose \<^verbatim>\<open>properties\<close> and \<^verbatim>\<open>shape\<close> are objects where present, and whose
  \<^verbatim>\<open>shape.coordinates\<close> is any structure.\<close>

definition valid_payload :: "json \<Rightarrow> bool" where
  "valid_payload p \<longleftrightarrow>
     is_obj p \<and>
     is_opt_str (payload_fence_id p) \<and>
     (is_obj (lookup p ''properties'') \<or> \<not> has_key p ''properties'') \<and>
     is_opt_str (payload_name p) \<and>
     is_opt_str (payload_notes p) \<and>
     is_opt_str (payload_created_at p) \<and>
     (is_obj (lookup p ''shape'') \<or> \<not> has_key p ''shape'')"


definition created_body :: json where
  "created_body =
     JObj [(''status'', JStr ''success''), (''message'', JStr ''Geofence created and stored'')]"

text \<open>The example payload of the spec.\<close>

definition example_coordinates :: json where
  "example_coordinates =
     JArr [JArr [JFloat (Finite False ''1'' 1), JFloat (Finite False ''2'' 1)],
           JArr [JFloat (Finite False ''3'' 1), JFloat (Finite False ''4'' 1)]]"

definition example_payload :: json where
  "example_payload =
     JObj [(''fence_id'', JStr ''f1''),
           (''properties'', JObj [(''name'', JStr ''Yard''), (''notes'', JStr ''back'')]),
           (''created_at'', JStr ''2024-01-01T00:00:00Z''),
           (''shape'', JObj [(''coordinates'', example_coordinates)])]"

text \<open>A coordinates structure with integers, floats in positional and scientific notation,
  an infinity and empty arrays: \<^verbatim>\<open>[[-0.00015, -7], [], [1e+16, 0, [[]]], 2.5, -0.0, inf]\<close>.\<close>

definition sample_coordinates :: json where
  "sample_coordinates =
     JArr [JArr [JFloat (Finite True ''15'' (- 3)), JInt (- 7)],
           JArr [],
           JArr [JFloat (Finite False ''1'' 17), JInt 0, JArr [JArr []]],
           JFloat (Finite False ''25'' 1),
           JFloat (Finite True ''0'' 1),
           JFloat (Infinite False)]"

text \<open>What a valid payload leaves in the table: a string as text, an absent or null value
  as \<^verbatim>\<open>NULL\<close>, and the coordinates as the text \<^verbatim>\<open>json.dumps\<close> gave.\<close>

definition stored :: "json \<Rightarrow> sqlval" where
  "stored v = (case v of JStr t \<Rightarrow> SqlText t | _ \<Rightarrow> SqlNull)"

definition row_of :: "json \<Rightarrow> fence" where
  "row_of p =
     \<lparr>fence_id_col = stored (payload_fence_id p),
      name_col = stored (payload_name p),
      notes_col = stored (payload_notes p),
      created_at_col = stored (payload_created_at p),
      coordinates_col = SqlText (json_dumps (payload_coordinates p))\<rparr>"


definition bad_payload :: json where
  "bad_payload = JObj [(''fence_id'', JStr ''f3''), (''properties'', JStr ''Yard'')]"


section \<open>Creating from a valid payload\<close>

lemma bind_opt_str: "is_opt_str v \<Longrightarrow> bind_param v = Inr (stored v)"
  by (cases v) (simp_all add: bind_param_def stored_def)

lemma bind_text: "bind_param (JStr t) = Inr (SqlText t)"
  by (simp add: bind_param_def)

lemma py_of_stored: "is_opt_str v \<Longrightarrow> py_of_sql (stored v) = v"
  by (cases v) (simp_all add: py_of_sql_def stored_def)


lemma dict_get_obj: "is_obj p \<Longrightarrow> dict_get p k JNull = Inr (lookup p k)"
  by (cases p) (simp_all add: dict_get_def lookup_def)

lemma dict_get_default:
  "is_obj p \<Longrightarrow> dict_get p k (JObj []) = Inr (if has_key p k then lookup p k else JObj [])"
  by (cases p) (auto simp: dict_get_def lookup_def has_key_def split: option.splits)

lemma lookup_absent: "\<not> has_key p k \<Longrightarrow> lookup p k = JNull"
  by (cases p) (auto simp: lookup_def has_key_def split: option.splits)

lemma lookup_empty: "lookup (JObj []) k = JNull" "lookup JNull k = JNull"
  by (simp_all add: lookup_def)

lemma get_sub_dict:
  assumes "is_obj p" "is_obj (lookup p k) \<or> \<not> has_key p k"
  shows "\<exists>d. dict_get p k (JObj []) = Inr d \<and> is_obj d \<and>
             (\<forall>k'. lookup d k' = lookup (lookup p k) k')"
proof (cases "has_key p k")
  case True
  with assms show ?thesis by (simp add: dict_get_default)
next
  case False
  with assms(1) show ?thesis by (simp add: dict_get_default lookup_absent lookup_empty)
qed

lemma create_valid:
  assumes "valid_payload p"
  shows "create_geofence p s = (Inr (201, created_body), s @ [row_of p])"
proof -
  from assms have o: "is_obj p" by (simp add: valid_payload_def)
  from assms have "is_obj (lookup p ''properties'') \<or> \<not> has_key p ''properties''"
    by (simp add: valid_payload_def)
  from get_sub_dict[OF o this] obtain ps where
    ps: "dict_get p ''properties'' (JObj []) = Inr ps" "is_obj ps"
        "\<And>k'. lookup ps k' = lookup (lookup p ''properties'') k'" by blast
  from assms have "is_obj (lookup p ''shape'') \<or> \<not> has_key p ''shape''"
    by (simp add: valid_payload_def)
  from get_sub_dict[OF o this] obtain ss where
    ss: "dict_get p ''shape'' (JObj []) = Inr ss" "is_obj ss"
        "\<And>k'. lookup ss k' = lookup (lookup p ''shape'') k'" by blast
  from assms have b: "bind_param (lookup p ''fence_id'') = Inr (stored (payload_fence_id p))"
    "bind_param (lookup (lookup p ''properties'') ''name'') = Inr (stored (payload_name p))"
    "bind_param (lookup (lookup p ''properties'') ''notes'') = Inr (stored (payload_notes p))"
    "bind_param (lookup p ''created_at'') = Inr (stored (payload_created_at p))"
    by (simp_all add: valid_payload_def bind_opt_str payload_fence_id_def payload_name_def
        payload_notes_def payload_created_at_def)
  show ?thesis
    by (simp add: create_geofence_def dict_get_obj[OF o] ps ss dict_get_obj[OF ps(2)]
        dict_get_obj[OF ss(2)] execute_insert_def b bind_text row_of_def created_body_def
        payload_coordinates_def)
qed



section \<open>What a request can do to the store\<close>

lemma execute_insert_appends:
  "execute_insert s params = Inr s' \<Longrightarrow> \<exists>r. s' = s @ [r]"
  by (auto simp: execute_insert_def split: prod.splits sum.splits)

lemma create_store:
  "snd (create_geofence p s) = s \<or> (\<exists>r. snd (create_geofence p s) = s @ [r])"
  by (auto simp: create_geofence_def split: sum.splits dest: execute_insert_appends)

lemma handle_store: "\<exists>rows. snd (handle r s) = s @ rows"
proof (cases r)
  case (Create p)
  with create_store[of p s] show ?thesis by auto
next
  case List
  then show ?thesis by (simp add: get_geofences_def)
qed

lemma serve_store: "\<exists>rows. serve rs s = s @ rows"
proof (induction rs arbitrary: s)
  case Nil
  show ?case by simp
next
  case (Cons r rs)
  obtain rows where 1: "snd (handle r s) = s @ rows" using handle_store by blast
  obtain rows' where "serve rs (s @ rows) = (s @ rows) @ rows'" using Cons.IH by blast
  with 1 show ?case by simp
qed

lemma execute_insert_from_empty:
  "execute_insert s params =
     (case execute_insert [] params of Inl e \<Rightarrow> Inl e | Inr rows \<Rightarrow> Inr (s @ rows))"
  by (simp add: execute_insert_def split: prod.splits sum.splits)

lemma create_from_empty:
  "create_geofence p s = (fst (create_geofence p []), s @ snd (create_geofence p []))"
  unfolding create_geofence_def Let_def
  by (subst execute_insert_from_empty) (simp split: sum.splits)

lemma execute_insert_first:
  "execute_insert s (p1, p2, p3, p4, p5) = Inr s' \<Longrightarrow>
   \<exists>r. s' = s @ [r] \<and> bind_param p1 = Inr (fence_id_col r)"
  by (auto simp: execute_insert_def split: sum.splits)

lemma dict_get_Inr: "dict_get d k JNull = Inr v \<Longrightarrow> v = lookup d k"
  by (cases d) (auto simp: dict_get_def lookup_def)

lemma create_Inr:
  assumes "create_geofence p s = (Inr a, s')"
  shows "a = (201, created_body) \<and>
         (\<exists>r. s' = s @ [r] \<and> bind_param (payload_fence_id p) = Inr (fence_id_col r))"
proof -
  from assms have "a = (201, created_body) \<and>
      (\<exists>r v. s' = s @ [r] \<and> dict_get p ''fence_id'' JNull = Inr v \<and>
             bind_param v = Inr (fence_id_col r))"
    unfolding create_geofence_def Let_def created_body_def
    by (auto split: sum.splits dest!: execute_insert_first)
  then show ?thesis
    unfolding payload_fence_id_def by (auto dest: dict_get_Inr)
qed

lemma create_success:
  assumes "fst (create_geofence p s) = Inr a"
  shows "a = (201, created_body) \<and>
         (\<exists>r. snd (create_geofence p s) = s @ [r] \<and>
              bind_param (payload_fence_id p) = Inr (fence_id_col r))"
  using assms create_Inr [of p s a "snd (create_geofence p s)"]
  by (cases "create_geofence p s") simp

lemma serve_creates_general:
  "serve (map Create ps) s = s @ concat (map (\<lambda>p. snd (create_geofence p [])) ps)"
proof (induction ps arbitrary: s)
  case Nil
  show ?case by simp
next
  case (Cons p ps)
  have "snd (create_geofence p s) = s @ snd (create_geofence p [])"
    by (subst create_from_empty) simp
  with Cons show ?case by simp
qed

lemma lookup_record:
  "lookup (dict_of_row r) ''fence_id'' = py_of_sql (fence_id_col r)"
  "lookup (dict_of_row r) ''name'' = py_of_sql (name_col r)"
  "lookup (dict_of_row r) ''notes'' = py_of_sql (notes_col r)"
  "lookup (dict_of_row r) ''created_at'' = py_of_sql (created_at_col r)"
  "lookup (dict_of_row r) ''coordinates'' = py_of_sql (coordinates_col r)"
  by (simp_all add: lookup_def dict_of_row_def)

lemma example_payload_valid: "valid_payload example_payload"
  by (simp add: valid_payload_def example_payload_def payload_fence_id_def payload_name_def
      payload_notes_def payload_created_at_def lookup_def has_key_def)


section \<open>Decimal digits\<close>

declare show_nat.simps [simp del]

lemma digit_cases: "d < 10 \<Longrightarrow> d \<in> {0, 1, 2, 3, 4, 5, 6, 7, 8, 9::nat}"
  by auto

lemma digit_char_is_digit: "d < 10 \<Longrightarrow> is_digit (digit_char d)"
  by (drule digit_cases) (auto simp: digit_char_def is_digit_def)

lemma digit_val_digit_char: "d < 10 \<Longrightarrow> digit_val (digit_char d) = d"
  by (drule digit_cases) (auto simp: digit_char_def digit_val_def)

lemma digit_char_nonzero: "0 < d \<Longrightarrow> d < 10 \<Longrightarrow> digit_char d \<noteq> CHR ''0''"
  by (drule digit_cases) (auto simp: digit_char_def)

lemma digit_char_zero: "digit_char 0 = CHR ''0''"
  by (simp add: digit_char_def)

lemma nat_of_digits_snoc: "nat_of_digits (ds @ [c]) = 10 * nat_of_digits ds + digit_val c"
  by (simp add: nat_of_digits_def)

lemma show_nat_digits: "list_all is_digit (show_nat n)"
proof (induction n rule: show_nat.induct)
  case (1 n)
  show ?case
  proof (cases "n < 10")
    case True
    then show ?thesis by (subst show_nat.simps) (simp add: digit_char_is_digit)
  next
    case False
    with 1 show ?thesis by (subst show_nat.simps) (simp add: digit_char_is_digit)
  qed
qed

lemma show_nat_nonempty: "show_nat n \<noteq> []"
  by (subst show_nat.simps) simp

lemma show_nat_hd: "0 < n \<Longrightarrow> hd (show_nat n) \<noteq> CHR ''0''"
proof (induction n rule: show_nat.induct)
  case (1 n)
  show ?case
  proof (cases "n < 10")
    case True
    with 1(2) show ?thesis by (subst show_nat.simps) (simp add: digit_char_nonzero)
  next
    case False
    then have "0 < n div 10" by simp
    with 1(1) False have "hd (show_nat (n div 10)) \<noteq> CHR ''0''" by simp
    with False show ?thesis by (subst show_nat.simps) (simp add: show_nat_nonempty)
  qed
qed

lemma show_nat_zero: "show_nat 0 = ''0''"
  by (subst show_nat.simps) (simp add: digit_char_zero)

lemma nat_of_digits_show_nat: "nat_of_digits (show_nat n) = n"
proof (induction n rule: show_nat.induct)
  case (1 n)
  show ?case
  proof (cases "n < 10")
    case True
    then show ?thesis
      by (subst show_nat.simps) (simp add: nat_of_digits_def digit_val_digit_char)
  next
    case False
    with 1 show ?thesis
      by (subst show_nat.simps) (simp add: nat_of_digits_snoc digit_val_digit_char)
  qed
qed

section \<open>Scanning the digits of a number\<close>

lemma ends_number_cases:
  "ends_number r \<Longrightarrow> r = [] \<or> (\<exists>c cs. r = c # cs \<and> (c = CHR '','' \<or> c = CHR '']''))"
  by (cases r) (simp_all add: ends_number_def)

lemma ends_number_no_digit: "ends_number r \<Longrightarrow> takeWhile is_digit r = []"
  by (drule ends_number_cases) (auto simp: is_digit_def)

lemma scan_digits:
  assumes "list_all is_digit ds" "takeWhile is_digit r = []"
  shows "takeWhile is_digit (ds @ r) = ds" "dropWhile is_digit (ds @ r) = r"
proof -
  from assms(1) have a: "\<And>x. x \<in> set ds \<Longrightarrow> is_digit x" by (simp add: list_all_iff)
  from assms(2) have "dropWhile is_digit r = r"
    by (metis append_Nil takeWhile_dropWhile_id)
  with a assms(2) show "takeWhile is_digit (ds @ r) = ds" "dropWhile is_digit (ds @ r) = r"
    by (simp_all add: takeWhile_append2 dropWhile_append2)
qed

lemma scan_int_part_zero: "scan_int_part (CHR ''0'' # r) = Some (''0'', r)"
  by (simp add: scan_int_part_def)

lemma scan_int_part_digits:
  assumes "ds \<noteq> []" "list_all is_digit ds" "hd ds \<noteq> CHR ''0''" "takeWhile is_digit r = []"
  shows "scan_int_part (ds @ r) = Some (ds, r)"
proof -
  from assms(1) obtain d ds' where ds: "ds = d # ds'" by (cases ds) auto
  with assms(2) have "list_all is_digit ds'" by simp
  from scan_digits[OF this assms(4)] ds assms(2,3) show ?thesis
    by (simp add: scan_int_part_def)
qed

lemma scan_frac_digits:
  assumes "fs \<noteq> []" "list_all is_digit fs" "takeWhile is_digit r = []"
  shows "scan_frac (CHR ''.'' # fs @ r) = (fs, r)"
proof -
  from assms(1) obtain d fs' where fs: "fs = d # fs'" by (cases fs) auto
  with assms(2) have "list_all is_digit fs'" by simp
  from scan_digits[OF this assms(3)] fs assms(2) show ?thesis
    by (simp add: scan_frac_def)
qed

lemma scan_frac_none: "ends_number r \<Longrightarrow> scan_frac r = ([], r)"
  by (drule ends_number_cases) (auto simp: scan_frac_def split: list.splits)

lemma scan_frac_exp: "scan_frac (CHR ''e'' # r) = ([], CHR ''e'' # r)"
  by (simp add: scan_frac_def split: list.splits)

lemma scan_exp_none: "ends_number r \<Longrightarrow> scan_exp r = (None, r)"
  by (drule ends_number_cases) (auto simp: scan_exp_def)

lemma nat_of_digits_zero_cons: "nat_of_digits (CHR ''0'' # ds) = nat_of_digits ds"
  by (simp add: nat_of_digits_def digit_val_def)

lemma scan_exp_show_exp:
  assumes "ends_number r"
  shows "scan_exp (CHR ''e'' # show_exp e @ r) = (Some e, r)"
proof -
  define ds where "ds = (if \<bar>e\<bar> < 10 then [CHR ''0''] else []) @ show_nat (nat \<bar>e\<bar>)"
  have d: "list_all is_digit ds" by (simp add: ds_def show_nat_digits is_digit_def)
  have n: "ds \<noteq> []" by (simp add: ds_def show_nat_nonempty)
  have v: "nat_of_digits ds = nat \<bar>e\<bar>"
    by (simp add: ds_def nat_of_digits_zero_cons nat_of_digits_show_nat)
  from assms have t: "takeWhile is_digit r = []" by (simp add: ends_number_no_digit)
  note sd = scan_digits[OF d t]
  have s: "show_exp e @ r = (if e < 0 then CHR ''-'' else CHR ''+'') # ds @ r"
    by (simp add: show_exp_def ds_def)
  show ?thesis
    unfolding s using sd n v by (cases "e < 0") (simp_all add: scan_exp_def)
qed

section \<open>Integers\<close>

lemma scan_unsigned_nat:
  assumes "ends_number r"
  shows "scan_unsigned neg (show_nat n @ r) =
           Some (JInt ((if neg then - 1 else 1) * int n), r)"
proof -
  from assms have t: "takeWhile is_digit r = []" by (simp add: ends_number_no_digit)
  have "scan_int_part (show_nat n @ r) = Some (show_nat n, r)"
  proof (cases "n = 0")
    case True
    then show ?thesis by (simp add: show_nat_zero scan_int_part_zero)
  next
    case False
    then show ?thesis
      by (intro scan_int_part_digits show_nat_nonempty show_nat_digits show_nat_hd t) simp
  qed
  then show ?thesis
    by (simp add: scan_unsigned_def scan_frac_none[OF assms] scan_exp_none[OF assms]
        nat_of_digits_show_nat)
qed

lemma show_nat_no_minus: "hd (show_nat n) \<noteq> CHR ''-''"
proof -
  have "list_all is_digit (show_nat n)" by (rule show_nat_digits)
  then have "is_digit (hd (show_nat n))"
    using show_nat_nonempty[of n] by (cases "show_nat n") simp_all
  then show ?thesis by (auto simp: is_digit_def)
qed

lemma match_number_nat:
  "ends_number r \<Longrightarrow> match_number (show_nat n @ r) = Some (JInt (int n), r)"
  using show_nat_nonempty[of n] show_nat_no_minus[of n] scan_unsigned_nat[of r False n]
  by (cases "show_nat n") (simp_all add: match_number_def)

lemma match_number_int:
  assumes "ends_number r"
  shows "match_number (show_int i @ r) = Some (JInt i, r)"
proof (cases "i < 0")
  case True
  then show ?thesis
    by (simp add: show_int_def match_number_def scan_unsigned_nat[OF assms])
next
  case False
  then show ?thesis by (simp add: show_int_def match_number_nat[OF assms])
qed

section \<open>Floats\<close>

lemma drop_zeros_replicate:
  "dropWhile (\<lambda>c. c = z) (replicate a z @ ys) = dropWhile (\<lambda>c. c = z) ys"
  by (induction a) simp_all

lemma drop_zeros_front:
  assumes "ds \<noteq> []" "hd ds \<noteq> CHR ''0''"
  shows "dropWhile (\<lambda>c. c = CHR ''0'') (replicate a CHR ''0'' @ ds @ zs) = ds @ zs"
proof -
  from assms obtain d ds' where "ds = d # ds'" "d \<noteq> CHR ''0''" by (cases ds) auto
  then show ?thesis by (simp add: drop_zeros_replicate)
qed

lemma drop_zeros_back:
  assumes "ds \<noteq> []" "last ds \<noteq> CHR ''0''"
  shows "rev (dropWhile (\<lambda>c. c = CHR ''0'') (rev (ds @ replicate b CHR ''0''))) = ds"
proof -
  from assms have "rev ds \<noteq> []" "hd (rev ds) \<noteq> CHR ''0''" by (simp_all add: hd_rev)
  from drop_zeros_front[OF this, of b "[]"] show ?thesis by simp
qed

lemma float_of_digits_norm:
  assumes "ds \<noteq> []" "hd ds \<noteq> CHR ''0''" "last ds \<noteq> CHR ''0''"
    and "ip @ fp = replicate a CHR ''0'' @ ds @ replicate b CHR ''0''"
  shows "float_of_digits neg ip fp e = Finite neg ds (int (length ip) + e - int a)"
proof -
  have 1: "dropWhile (\<lambda>c. c = CHR ''0'') (ip @ fp) = ds @ replicate b CHR ''0''"
    unfolding assms(4) by (rule drop_zeros_front[OF assms(1,2)])
  have 2: "length (ip @ fp) - length (ds @ replicate b CHR ''0'') = a"
    unfolding assms(4) by simp
  have 3: "rev (dropWhile (\<lambda>c. c = CHR ''0'') (rev (ds @ replicate b CHR ''0''))) = ds"
    by (rule drop_zeros_back[OF assms(1,3)])
  show ?thesis
    unfolding float_of_digits_def Let_def 1 2 3 using assms(1) by simp
qed

lemma float_of_digits_zero:
  assumes "ip @ fp = replicate k CHR ''0''"
  shows "float_of_digits neg ip fp e = Finite neg ''0'' 1"
proof -
  have z: "dropWhile (\<lambda>c. c = CHR ''0'') (ip @ fp) = []"
    unfolding assms by simp
  show ?thesis unfolding float_of_digits_def Let_def z by simp
qed

lemma float_repr_neg: "float_repr (Finite True ds p) = CHR ''-'' # float_repr (Finite False ds p)"
  by (simp add: float_repr_def)

lemma digits_hd_is_digit: "ds \<noteq> [] \<Longrightarrow> list_all is_digit ds \<Longrightarrow> is_digit (hd ds)"
  by (cases ds) simp_all

lemma not_digit_chars:
  "\<not> is_digit CHR ''.''" "\<not> is_digit CHR ''e''" "\<not> is_digit CHR ''-''" "is_digit CHR ''0''"
  by (simp_all add: is_digit_def)

lemma zeros_digits: "list_all is_digit (replicate k CHR ''0'')"
  by (induction k) (simp_all add: is_digit_def)

lemma scan_unsigned_float:
  assumes ok: "float_ok (Finite neg ds p)" and r: "ends_number r"
  shows "scan_unsigned neg (float_repr (Finite False ds p) @ r) = Some (JFloat (Finite neg ds p), r)"
proof -
  from ok have ne: "ds \<noteq> []" and dg: "list_all is_digit ds" by simp_all
  from r have t: "takeWhile is_digit r = []" by (rule ends_number_no_digit)
  note fn = scan_frac_none[OF r] and en = scan_exp_none[OF r]
  show ?thesis
  proof (cases "ds = ''0''")
    case True
    with ok have p: "p = 1" by simp
    have f: "scan_frac (CHR ''.'' # ''0'' @ r) = (''0'', r)"
      by (rule scan_frac_digits) (simp_all add: t not_digit_chars)
    have z: "float_of_digits neg ''0'' ''0'' 0 = Finite neg ''0'' 1"
      by (rule float_of_digits_zero[of _ _ 2]) (simp add: numeral_2_eq_2)
    from f show ?thesis
      by (simp add: True p float_repr_def scan_unsigned_def scan_int_part_zero en z)
  next
    case nz: False
    with ok have h: "hd ds \<noteq> CHR ''0''" and l: "last ds \<noteq> CHR ''0''" by simp_all
    consider (sci) "p \<le> - 4 \<or> p > 16"
      | (small) "\<not> (p \<le> - 4 \<or> p > 16)" "p \<le> 0"
      | (mid) "\<not> (p \<le> - 4 \<or> p > 16)" "0 < p" "p < int (length ds)"
      | (big) "\<not> (p \<le> - 4 \<or> p > 16)" "0 < p" "int (length ds) \<le> p"
      by linarith
    then show ?thesis
    proof cases
      case sci
      from ne obtain d ds' where ds: "ds = d # ds'" by (cases ds) auto
      with dg h have d: "is_digit d" "d \<noteq> CHR ''0''" and dg': "list_all is_digit ds'" by simp_all
      define rest where "rest = CHR ''e'' # show_exp (p - 1) @ r"
      have tr: "takeWhile is_digit rest = []" by (simp add: rest_def not_digit_chars)
      have e: "scan_exp rest = (Some (p - 1), r)"
        unfolding rest_def by (rule scan_exp_show_exp[OF r])
      have fl: "float_of_digits neg [d] ds' (p - 1) = Finite neg ds p"
        using float_of_digits_norm[OF ne h l, of "[d]" ds' 0 0 neg "p - 1"] ds by simp
      have shape: "float_repr (Finite False ds p) @ r =
                   d # (if ds' = [] then rest else CHR ''.'' # ds' @ rest)"
        using sci by (simp add: float_repr_def ds rest_def)
      have i: "scan_int_part (d # x) = Some ([d], x)" if "takeWhile is_digit x = []" for x
        using scan_int_part_digits[of "[d]" x] d that by simp
      show ?thesis
      proof (cases "ds' = []")
        case True
        have f: "scan_frac rest = ([], rest)" unfolding rest_def by (rule scan_frac_exp)
        from fl show ?thesis
          unfolding shape by (simp add: True scan_unsigned_def i[OF tr] f e)
      next
        case False
        have f: "scan_frac (CHR ''.'' # ds' @ rest) = (ds', rest)"
          by (rule scan_frac_digits[OF False dg' tr])
        have "takeWhile is_digit (CHR ''.'' # ds' @ rest) = []"
          by (simp add: not_digit_chars)
        from i[OF this] fl False show ?thesis
          unfolding shape by (simp add: scan_unsigned_def f e)
      qed
    next
      case small
      define fs where "fs = replicate (nat (- p)) CHR ''0'' @ ds"
      have fs: "fs \<noteq> []" "list_all is_digit fs"
        using ne dg by (simp_all add: fs_def zeros_digits)
      have shape: "float_repr (Finite False ds p) @ r = CHR ''0'' # CHR ''.'' # fs @ r"
        using small by (simp add: float_repr_def fs_def)
      have f: "scan_frac (CHR ''.'' # fs @ r) = (fs, r)"
        by (rule scan_frac_digits[OF fs t])
      have "''0'' @ fs = replicate (Suc (nat (- p))) CHR ''0'' @ ds @ replicate 0 CHR ''0''"
        by (simp add: fs_def)
      from float_of_digits_norm[OF ne h l this, of neg 0] small
      have fl: "float_of_digits neg ''0'' fs 0 = Finite neg ds p" by simp
      from f fl fs(1) show ?thesis
        unfolding shape by (simp add: scan_unsigned_def scan_int_part_zero en)
    next
      case mid
      define ip where "ip = take (nat p) ds"
      define fp where "fp = drop (nat p) ds"
      have ip: "ip \<noteq> []" "list_all is_digit ip" "hd ip \<noteq> CHR ''0''" "length ip = nat p"
        using mid ne dg h by (auto simp: ip_def list_all_iff dest: in_set_takeD)
      have fp: "fp \<noteq> []" "list_all is_digit fp"
        using mid dg by (auto simp: fp_def list_all_iff dest: in_set_dropD)
      have shape: "float_repr (Finite False ds p) @ r = ip @ (CHR ''.'' # fp @ r)"
        using mid by (simp add: float_repr_def ip_def fp_def)
      have i: "scan_int_part (ip @ (CHR ''.'' # fp @ r)) = Some (ip, CHR ''.'' # fp @ r)"
        by (rule scan_int_part_digits[OF ip(1-3)]) (simp add: not_digit_chars)
      have f: "scan_frac (CHR ''.'' # fp @ r) = (fp, r)"
        by (rule scan_frac_digits[OF fp t])
      have "ip @ fp = replicate 0 CHR ''0'' @ ds @ replicate 0 CHR ''0''"
        by (simp add: ip_def fp_def)
      from float_of_digits_norm[OF ne h l this, of neg 0] mid ip(4)
      have fl: "float_of_digits neg ip fp 0 = Finite neg ds p" by simp
      from i f fl fp(1) show ?thesis
        unfolding shape by (simp add: scan_unsigned_def en)
    next
      case big
      define k where "k = nat p - length ds"
      define ip where "ip = ds @ replicate k CHR ''0''"
      have ip: "ip \<noteq> []" "list_all is_digit ip" "hd ip \<noteq> CHR ''0''"
        using ne dg h by (simp_all add: ip_def zeros_digits)
      have len: "int (length ip) = p" using big by (simp add: ip_def k_def)
      have shape: "float_repr (Finite False ds p) @ r = ip @ (CHR ''.'' # ''0'' @ r)"
        using big by (simp add: float_repr_def ip_def k_def)
      have i: "scan_int_part (ip @ (CHR ''.'' # ''0'' @ r)) = Some (ip, CHR ''.'' # ''0'' @ r)"
        by (rule scan_int_part_digits[OF ip]) (simp add: not_digit_chars)
      have f: "scan_frac (CHR ''.'' # ''0'' @ r) = (''0'', r)"
        by (rule scan_frac_digits) (simp_all add: t not_digit_chars)
      have "ip @ ''0'' = replicate 0 CHR ''0'' @ ds @ replicate (Suc k) CHR ''0''"
        by (simp add: ip_def replicate_append_same)
      from float_of_digits_norm[OF ne h l this, of neg 0] len
      have fl: "float_of_digits neg ip ''0'' 0 = Finite neg ds p" by simp
      from i f fl show ?thesis
        unfolding shape by (simp add: scan_unsigned_def en)
    qed
  qed
qed

lemma float_repr_hd:
  assumes "float_ok (Finite neg ds p)"
  shows "\<exists>c cs. float_repr (Finite False ds p) = c # cs \<and> is_digit c"
proof -
  from assms obtain d ds' where ds: "ds = d # ds'" and d: "is_digit d"
    by (cases ds) auto
  show ?thesis
  proof (cases "0 < p")
    case True
    then obtain k where "nat p = Suc k" by (cases "nat p") auto
    with True d show ?thesis by (simp add: float_repr_def ds)
  next
    case False
    with d show ?thesis by (simp add: float_repr_def ds not_digit_chars)
  qed
qed

lemma match_number_float:
  assumes "float_ok (Finite neg ds p)" "ends_number r"
  shows "match_number (float_repr (Finite neg ds p) @ r) = Some (JFloat (Finite neg ds p), r)"
proof (cases neg)
  case True
  with scan_unsigned_float[OF assms] show ?thesis
    by (simp add: float_repr_neg match_number_def)
next
  case False
  from float_repr_hd[OF assms(1)] obtain c cs where
    c: "float_repr (Finite False ds p) = c # cs" "is_digit c" by blast
  then have "c \<noteq> CHR ''-''" by (auto simp: is_digit_def)
  with scan_unsigned_float[OF assms] c(1) False show ?thesis
    by (simp add: match_number_def)
qed

section \<open>Values and arrays\<close>

lemma starts_number_append: "starts_number s \<Longrightarrow> starts_number (s @ t)"
  by (cases s) (simp_all add: starts_number_def)

lemma starts_value_append: "starts_value s \<Longrightarrow> starts_value (s @ t)"
  by (cases s) (auto simp: starts_value_def starts_number_def)

lemma starts_value_skip: "starts_value s \<Longrightarrow> skip_ws s = s"
  by (cases s) (auto simp: starts_value_def starts_number_def skip_ws_def is_ws_def is_digit_def)

lemma starts_value_cons: "starts_value s \<Longrightarrow> \<exists>d t. s = d # t \<and> d \<noteq> CHR '']''"
  by (cases s) (auto simp: starts_value_def starts_number_def is_digit_def)

lemma show_nat_starts: "starts_number (show_nat n)"
  using show_nat_digits[of n] show_nat_nonempty[of n]
  by (cases "show_nat n") (simp_all add: starts_number_def)

lemma show_int_starts: "starts_number (show_int i)"
  using show_nat_starts[of "nat i"] by (simp add: show_int_def starts_number_def)

lemma floatstr_starts: "float_ok f \<Longrightarrow> starts_number (floatstr f)"
proof (cases f)
  case (Finite neg ds p)
  assume "float_ok f"
  with Finite float_repr_hd[of neg ds p] obtain c cs where
    "float_repr (Finite False ds p) = c # cs" "is_digit c" by blast
  with Finite show ?thesis
    by (cases neg) (simp_all add: floatstr_def float_repr_neg starts_number_def)
qed (simp_all add: floatstr_def starts_number_def)

lemma scan_once_number:
  assumes "match_number s = Some res" "starts_number s"
  shows "scan_once (Suc n) s = Some res"
proof -
  from assms(2) obtain c cs where s: "s = c # cs"
    and c: "c = CHR ''-'' \<or> c = CHR ''I'' \<or> is_digit c"
    by (cases s) (auto simp: starts_number_def)
  from c have "c \<noteq> CHR 0x22" "c \<noteq> CHR ''{''" "c \<noteq> CHR ''[''" "c \<noteq> CHR ''n''"
    "c \<noteq> CHR ''t''" "c \<noteq> CHR ''f''"
    by (auto simp: is_digit_def)
  with assms(1) show ?thesis unfolding s by simp
qed

lemma scan_once_infinite:
  "scan_once (Suc n) (floatstr (Infinite neg) @ r) = Some (JFloat (Infinite neg), r)"
  by (cases neg)
    (simp_all add: floatstr_def match_number_def scan_unsigned_def scan_int_part_def is_digit_def)

lemma scan_once_int:
  assumes "ends_number r"
  shows "scan_once (Suc n) (show_int i @ r) = Some (JInt i, r)"
  by (rule scan_once_number[OF match_number_int[OF assms]])
    (rule starts_number_append[OF show_int_starts])

lemma scan_once_float:
  assumes "float_ok f" "ends_number r"
  shows "scan_once (Suc n) (floatstr f @ r) = Some (JFloat f, r)"
proof (cases f)
  case (Finite neg ds p)
  with assms(1) have ok: "float_ok (Finite neg ds p)" by simp
  have "starts_number (floatstr f @ r)"
    by (rule starts_number_append[OF floatstr_starts[OF assms(1)]])
  moreover have "match_number (floatstr f @ r) = Some (JFloat f, r)"
    using match_number_float[OF ok assms(2)] Finite by (simp add: floatstr_def)
  ultimately show ?thesis by (rule scan_once_number[rotated])
next
  case (Infinite neg)
  then show ?thesis by (simp only: scan_once_infinite)
next
  case NaN
  with assms(1) show ?thesis by simp
qed

lemma dumps_starts_value: "is_coordinates v \<Longrightarrow> starts_value (json_dumps v)"
  by (cases v) (simp_all add: starts_value_def show_int_starts floatstr_starts)

lemma elems_starts_value:
  assumes "xs \<noteq> []" "list_all is_coordinates xs"
  shows "starts_value (dumps_elems xs @ t)"
proof -
  from assms(1) obtain x ys where xs: "xs = x # ys" by (cases xs) auto
  with assms(2) have "starts_value (json_dumps x)" by (simp add: dumps_starts_value)
  then show ?thesis
    unfolding xs by (cases ys) (simp_all add: starts_value_append)
qed

lemma dumps_nonempty: "is_coordinates v \<Longrightarrow> 0 < length (json_dumps v)"
  using dumps_starts_value[of v] by (cases "json_dumps v") (auto simp: starts_value_def starts_number_def)

lemma scan_dumps:
  "is_coordinates v \<Longrightarrow> ends_number r \<Longrightarrow> length (json_dumps v) \<le> n \<Longrightarrow>
     scan_once n (json_dumps v @ r) = Some (v, r)"
  "xs \<noteq> [] \<Longrightarrow> list_all is_coordinates xs \<Longrightarrow> length (dumps_elems xs) < n \<Longrightarrow>
     scan_elems n (dumps_elems xs @ CHR '']'' # r) = Some (xs, r)"
  "length (dumps_items kvs) \<ge> 0"
proof (induction v and xs and kvs arbitrary: n r and n r
    rule: json_dumps_dumps_elems_dumps_items.induct)
  case (3 i)
  from dumps_nonempty[OF "3.prems"(1)] "3.prems"(3) obtain m where n: "n = Suc m"
    by (cases n) auto
  show ?case unfolding n json_dumps.simps by (rule scan_once_int[OF "3.prems"(2)])
next
  case (4 f)
  from dumps_nonempty[OF "4.prems"(1)] "4.prems"(3) obtain m where n: "n = Suc m"
    by (cases n) auto
  from "4.prems"(1) have "float_ok f" by simp
  then show ?case unfolding n json_dumps.simps by (rule scan_once_float[OF _ "4.prems"(2)])
next
  case (6 xs)
  from "6.prems"(3) obtain m where n: "n = Suc m" and m: "length (dumps_elems xs) < m"
    by (cases n) auto
  show ?case
  proof (cases "xs = []")
    case True
    then show ?thesis by (simp add: n skip_ws_def is_ws_def)
  next
    case False
    from "6.prems"(1) have all: "list_all is_coordinates xs" by simp
    have sv: "starts_value (dumps_elems xs @ CHR '']'' # r)"
      by (rule elems_starts_value[OF False all])
    from starts_value_cons[OF sv] obtain d t where
      dt: "dumps_elems xs @ CHR '']'' # r = d # t" "d \<noteq> CHR '']''" by blast
    have "scan_elems m (d # t) = Some (xs, r)"
      using "6.IH"[OF False all m, of r] dt(1) by simp
    moreover have "skip_ws (d # t) = d # t"
      using starts_value_skip[OF sv] dt(1) by simp
    ultimately show ?thesis
      using dt by (simp add: n)
  qed
next
  case (9 x)
  from "9.prems"(3) obtain m where n: "n = Suc m" and m: "length (json_dumps x) \<le> m"
    by (cases n) auto
  from "9.prems"(2) have x: "is_coordinates x" by simp
  have e: "ends_number (CHR '']'' # r)" by (simp add: ends_number_def)
  from "9.IH"[OF x e m] show ?case
    by (simp add: n skip_ws_def is_ws_def)
next
  case (10 x y ys)
  from "10.prems"(3) obtain m where n: "n = Suc m"
    and mx: "length (json_dumps x) \<le> m" and my: "length (dumps_elems (y # ys)) < m"
    by (cases n) auto
  from "10.prems"(2) have x: "is_coordinates x" and ys: "list_all is_coordinates (y # ys)"
    by simp_all
  define rest where "rest = dumps_elems (y # ys) @ CHR '']'' # r"
  have e: "ends_number (CHR '','' # CHR '' '' # rest)" by (simp add: ends_number_def)
  have sv: "starts_value rest"
    unfolding rest_def by (rule elems_starts_value[OF _ ys]) simp
  have 1: "scan_once m (json_dumps x @ CHR '','' # CHR '' '' # rest) = Some (x, CHR '','' # CHR '' '' # rest)"
    by (rule "10.IH"(1)[OF x e mx])
  have 2: "scan_elems m rest = Some (y # ys, r)"
    unfolding rest_def by (rule "10.IH"(2)[OF _ ys my]) simp
  have 3: "skip_ws (CHR '' '' # rest) = rest"
    using starts_value_skip[OF sv] by (simp add: skip_ws_def is_ws_def)
  have 4: "skip_ws (CHR '','' # CHR '' '' # rest) = CHR '','' # CHR '' '' # rest"
    by (simp add: skip_ws_def is_ws_def)
  have eq: "dumps_elems (x # y # ys) @ CHR '']'' # r = json_dumps x @ CHR '','' # CHR '' '' # rest"
    by (simp add: rest_def)
  show ?case
    unfolding n eq by (simp add: 1 2 3 4)
qed simp_all

section \<open>A created record is listed\<close>

text \<open>
  C1. For every valid create payload, after \<^verbatim>\<open>create(payload)\<close> has succeeded, a
  subsequent \<^verbatim>\<open>list()\<close> returns a sequence that includes a record whose
  \<^verbatim>\<open>fence_id\<close>, \<^verbatim>\<open>name\<close>, \<^verbatim>\<open>notes\<close> and \<^verbatim>\<open>created_at\<close> equal the payload's values,
  an absent optional field matching as null. The listing may come after any further
  requests \<open>rs\<close>.
\<close>

theorem create_then_list_includes:
  assumes "valid_payload p"
  shows "fst (create_geofence p s) = Inr (201, created_body) \<and>
         (\<exists>recs. fst (get_geofences (serve rs (snd (create_geofence p s)))) = Inr (200, JArr recs) \<and>
            (\<exists>r \<in> set recs.
               lookup r ''fence_id'' = payload_fence_id p \<and>
               lookup r ''name'' = payload_name p \<and>
               lookup r ''notes'' = payload_notes p \<and>
               lookup r ''created_at'' = payload_created_at p))"
proof -
  obtain rows where rows: "serve rs (s @ [row_of p]) = (s @ [row_of p]) @ rows"
    using serve_store by blast
  have v: "is_opt_str (payload_fence_id p)" "is_opt_str (payload_name p)"
    "is_opt_str (payload_notes p)" "is_opt_str (payload_created_at p)"
    using assms by (simp_all add: valid_payload_def)
  have "lookup (dict_of_row (row_of p)) ''fence_id'' = payload_fence_id p"
    "lookup (dict_of_row (row_of p)) ''name'' = payload_name p"
    "lookup (dict_of_row (row_of p)) ''notes'' = payload_notes p"
    "lookup (dict_of_row (row_of p)) ''created_at'' = payload_created_at p"
    by (simp_all add: lookup_record row_of_def py_of_stored v)
  then show ?thesis
    by (simp add: create_valid[OF assms] rows get_geofences_def)
qed

theorem create_then_list_includes_witness:
  "valid_payload example_payload \<and>
   fst (create_geofence example_payload []) = Inr (201, created_body) \<and>
   (\<exists>recs. fst (get_geofences (serve [List] (snd (create_geofence example_payload [])))) =
            Inr (200, JArr recs) \<and>
      (\<exists>r \<in> set recs.
         lookup r ''fence_id'' = payload_fence_id example_payload \<and>
         lookup r ''name'' = payload_name example_payload \<and>
         lookup r ''notes'' = payload_notes example_payload \<and>
         lookup r ''created_at'' = payload_created_at example_payload))"
  using create_then_list_includes [OF example_payload_valid, of "[]" "[List]"]
    example_payload_valid by simp

section \<open>Coordinates round trip\<close>

text \<open>
  C2. For every coordinates structure, an arbitrarily nested array of numbers, decoding the
  text that the service's serialization (\<^verbatim>\<open>json.dumps\<close>, line 36) produces yields the
  original structure: the same numbers in the same nesting and order. In particular the
  decoder does not run out of its recursion bound on such a text.
\<close>

theorem coordinates_round_trip:
  "is_coordinates v \<Longrightarrow> json_loads (json_dumps v) = Some v"
  using scan_dumps(1) [of v "[]" "length (json_dumps v)"]
    starts_value_skip [OF dumps_starts_value, of v]
  by (simp add: json_loads_def ends_number_def skip_ws_def)

theorem coordinates_round_trip_witness:
  "is_coordinates sample_coordinates \<and>
   json_loads (json_dumps sample_coordinates) = Some sample_coordinates"
proof -
  have c: "is_coordinates sample_coordinates"
    by (simp add: sample_coordinates_def is_digit_def)
  from coordinates_round_trip [OF c] c show ?thesis by blast
qed

section \<open>The example of the spec\<close>

text \<open>
  C3. Posting the example payload to an empty store answers 201 with the body
  \<^verbatim>\<open>{"status": "success", "message": "Geofence created and stored"}\<close>; the listing that
  follows answers 200 with exactly one record, whose \<^verbatim>\<open>fence_id\<close> is \<^verbatim>\<open>f1\<close>, whose
  \<^verbatim>\<open>name\<close> is \<^verbatim>\<open>Yard\<close> and whose coordinates text decodes to
  \<^verbatim>\<open>[[1.0, 2.0], [3.0, 4.0]]\<close>.
\<close>

theorem example_create_then_list:
  "create_geofence example_payload [] =
     (Inr (201, JObj [(''status'', JStr ''success''),
                      (''message'', JStr ''Geofence created and stored'')]),
      snd (create_geofence example_payload [])) \<and>
   get_geofences (snd (create_geofence example_payload [])) =
     (Inr (200, JArr [JObj [(''fence_id'', JStr ''f1''),
                            (''name'', JStr ''Yard''),
                            (''notes'', JStr ''back''),
                            (''created_at'', JStr ''2024-01-01T00:00:00Z''),
                            (''coordinates'', JStr ''[[1.0, 2.0], [3.0, 4.0]]'')]]),
      snd (create_geofence example_payload [])) \<and>
   json_loads ''[[1.0, 2.0], [3.0, 4.0]]'' =
     Some (JArr [JArr [JFloat (Finite False ''1'' 1), JFloat (Finite False ''2'' 1)],
                 JArr [JFloat (Finite False ''3'' 1), JFloat (Finite False ''4'' 1)]])"
proof -
  have row: "row_of example_payload =
      \<lparr>fence_id_col = SqlText ''f1'', name_col = SqlText ''Yard'', notes_col = SqlText ''back'',
       created_at_col = SqlText ''2024-01-01T00:00:00Z'',
       coordinates_col = SqlText ''[[1.0, 2.0], [3.0, 4.0]]''\<rparr>"
    by (simp add: row_of_def example_payload_def example_coordinates_def stored_def lookup_def
        payload_fence_id_def payload_name_def payload_notes_def payload_created_at_def
        payload_coordinates_def floatstr_def float_repr_def)
  have created: "create_geofence example_payload [] =
      (Inr (201, created_body), [row_of example_payload])"
    using create_valid [OF example_payload_valid, of "[]"] by simp
  have decoded: "json_loads ''[[1.0, 2.0], [3.0, 4.0]]'' =
      Some (JArr [JArr [JFloat (Finite False ''1'' 1), JFloat (Finite False ''2'' 1)],
                  JArr [JFloat (Finite False ''3'' 1), JFloat (Finite False ''4'' 1)]])"
    by (simp add: json_loads_def skip_ws_def is_ws_def match_number_def scan_unsigned_def
        scan_int_part_def scan_frac_def scan_exp_def is_digit_def float_of_digits_def)
  show ?thesis
    by (simp add: created decoded get_geofences_def created_body_def row dict_of_row_def
        py_of_sql_def)
qed

section \<open>As many records as creations\<close>



section \<open>No uniqueness check\<close>

text \<open>
  C5. Every call to create that succeeds appends exactly one row, whatever the store holds
  already: there is no existence check and no upsert. Two successful calls whose payloads
  carry the same \<^verbatim>\<open>fence_id\<close> leave two rows, one after the other, both with that
  identifier.
\<close>

theorem create_appends_one_row:
  assumes "fst (create_geofence p s) = Inr a"
    and "fst (create_geofence q (snd (create_geofence p s))) = Inr b"
    and "payload_fence_id p = payload_fence_id q"
  shows "\<exists>r1 r2. snd (create_geofence p s) = s @ [r1] \<and>
           snd (create_geofence q (snd (create_geofence p s))) = s @ [r1, r2] \<and>
           bind_param (payload_fence_id p) = Inr (fence_id_col r1) \<and>
           fence_id_col r2 = fence_id_col r1"
proof -
  from create_success [OF assms(1)] obtain r1 where
    1: "snd (create_geofence p s) = s @ [r1]"
       "bind_param (payload_fence_id p) = Inr (fence_id_col r1)" by blast
  from create_success [OF assms(2)] obtain r2 where
    2: "snd (create_geofence q (snd (create_geofence p s))) = snd (create_geofence p s) @ [r2]"
       "bind_param (payload_fence_id q) = Inr (fence_id_col r2)" by blast
  from 1 2 assms(3) show ?thesis by simp
qed

theorem create_appends_one_row_witness:
  "fst (create_geofence example_payload [row_of example_payload]) = Inr (201, created_body) \<and>
   fst (create_geofence example_payload
         (snd (create_geofence example_payload [row_of example_payload]))) =
     Inr (201, created_body) \<and>
   payload_fence_id example_payload = payload_fence_id example_payload \<and>
   (\<exists>r1 r2.
      snd (create_geofence example_payload [row_of example_payload]) =
        [row_of example_payload] @ [r1] \<and>
      snd (create_geofence example_payload
            (snd (create_geofence example_payload [row_of example_payload]))) =
        [row_of example_payload] @ [r1, r2] \<and>
      bind_param (payload_fence_id example_payload) = Inr (fence_id_col r1) \<and>
      fence_id_col r2 = fence_id_col r1)"
proof -
  have 1: "fst (create_geofence example_payload [row_of example_payload]) =
      Inr (201, created_body)"
    by (simp add: create_valid [OF example_payload_valid])
  have 2: "fst (create_geofence example_payload
      (snd (create_geofence example_payload [row_of example_payload]))) =
      Inr (201, created_body)"
    by (simp add: create_valid [OF example_payload_valid])
  from create_appends_one_row [OF 1 2 refl] 1 2 show ?thesis by blast
qed

section \<open>A payload without properties\<close>




section \<open>Listing an empty store\<close>

text \<open>
  C7. When the store holds no record, \<^verbatim>\<open>list()\<close> returns the empty sequence with
  status 200.
\<close>

theorem list_empty_store:
  "get_geofences [] = (Inr (200, JArr []), [])"
  by (simp add: get_geofences_def)

section \<open>Stored records stay as they are\<close>

text \<open>
  C8. \<^verbatim>\<open>list()\<close> leaves the table unchanged, the only effect of a create on the table
  is one appended row, and after any sequence of requests the records stored before are
  still there, unchanged and in their places.
\<close>

theorem stored_records_unchanged:
  "snd (get_geofences s) = s \<and>
   (snd (create_geofence p s) = s \<or> (\<exists>r. snd (create_geofence p s) = s @ [r])) \<and>
   take (length s) (serve rs s) = s"
proof -
  obtain rows where "serve rs s = s @ rows" using serve_store by blast
  then show ?thesis using create_store[of p s] by (simp add: get_geofences_def)
qed

section \<open>Properties that is not an object\<close>

text \<open>
  C9. When the payload has a key \<^verbatim>\<open>properties\<close> whose value is not an object, create
  does not coerce name and notes to empty: extraction raises, the request is answered with
  a server error and no row is appended.
\<close>

theorem properties_not_object_fails:
  assumes "is_obj p" "has_key p ''properties''" "\<not> is_obj (lookup p ''properties'')"
  shows "create_geofence p s = (Inl AttributeError, s) \<and>
         http_status (fst (create_geofence p s)) = 500"
proof -
  have "dict_get (lookup p ''properties'') ''name'' JNull = Inl AttributeError"
    using assms(3) by (cases "lookup p ''properties''") (simp_all add: dict_get_def)
  then show ?thesis
    by (simp add: create_geofence_def dict_get_obj[OF assms(1)] dict_get_default[OF assms(1)]
        assms(2) http_status_def)
qed

theorem properties_not_object_fails_witness:
  "is_obj bad_payload \<and> has_key bad_payload ''properties'' \<and>
   \<not> is_obj (lookup bad_payload ''properties'') \<and>
   create_geofence bad_payload [row_of example_payload] =
     (Inl AttributeError, [row_of example_payload]) \<and>
   http_status (fst (create_geofence bad_payload [row_of example_payload])) = 500"
proof -
  have h: "is_obj bad_payload" "has_key bad_payload ''properties''"
    "\<not> is_obj (lookup bad_payload ''properties'')"
    by (simp_all add: bad_payload_def has_key_def lookup_def)
  from properties_not_object_fails [OF h, of "[row_of example_payload]"] h
  show ?thesis by blast
qed

section \<open>Listing order\<close>




end
